theory Spec2Isabelle
  imports Main "HOL-Library.AList" "HOL-Library.Multiset"
begin

section \<open>Permission rollback simulator (src/main.py)\<close>

text \<open>
  The simulator keeps a permission mapping (a Python dict from resource paths to lists of
  users) and a networkx \<open>DiGraph\<close>. A Python dict is modelled as an association list in
  insertion order whose keys are distinct; the graph is modelled by its successor
  adjacency \<open>_succ\<close>, a dict from each node to the dict of its successors. The edge
  attribute dicts are always empty in this program, so only the successor keys are kept.
  The predecessor adjacency mirrors \<open>_succ\<close> and is read by nothing the simulator calls.
  networkx is a library outside the repository: the operations the simulator calls
  (\<open>add_node\<close>, \<open>add_edge\<close>, \<open>edges\<close>, \<open>nodes\<close>, \<open>remove_edges_from\<close>, \<open>descendants\<close>) are
  modelled after their documented behaviour. Python sets are HOL sets.
\<close>

subsection \<open>Errors\<close>

datatype error = NetworkXError string | KeyError string

subsection \<open>Python dicts\<close>

type_synonym 'v dict = "(string \<times> 'v) list"

definition is_dict :: "'v dict \<Rightarrow> bool" where
  "is_dict d = distinct (map fst d)"

definition keys :: "'v dict \<Rightarrow> string list" where
  "keys d = map fst d"

text \<open>\<open>d[k]\<close>: raises \<open>KeyError\<close> on a missing key.\<close>

definition getitem :: "'v dict \<Rightarrow> string \<Rightarrow> error + 'v" where
  "getitem d k = (case map_of d k of None \<Rightarrow> Inl (KeyError k) | Some v \<Rightarrow> Inr v)"

subsection \<open>The networkx directed graph\<close>

type_synonym DiGraph = "string list dict"

definition empty_graph :: DiGraph where
  "empty_graph = []"

definition nodes :: "DiGraph \<Rightarrow> string list" where
  "nodes g = keys g"

text \<open>\<open>G.edges()\<close>: for every node in node order, one pair per successor.\<close>

definition edges :: "DiGraph \<Rightarrow> (string \<times> string) list" where
  "edges g = concat (map (\<lambda>(u, nbrs). map (Pair u) nbrs) g)"

text \<open>\<open>G.add_node(n)\<close>: a new node gets an empty successor dict; an existing node is kept.\<close>

definition add_node :: "string \<Rightarrow> DiGraph \<Rightarrow> DiGraph" where
  "add_node n g = (if n \<in> set (keys g) then g else g @ [(n, [])])"

text \<open>
  \<open>G.add_edge(u, v)\<close>: both end points become nodes (first \<open>u\<close>, then \<open>v\<close>), and
  \<open>v\<close> becomes a key of \<open>_succ[u]\<close>; setting a key that is present changes nothing.
\<close>

definition add_edge :: "string \<Rightarrow> string \<Rightarrow> DiGraph \<Rightarrow> DiGraph" where
  "add_edge u v g =
     AList.map_entry u (\<lambda>nbrs. if v \<in> set nbrs then nbrs else nbrs @ [v])
       (add_node v (add_node u g))"

text \<open>
  \<open>G.remove_edges_from(ebunch)\<close>: for each pair \<open>(u, v)\<close>, if \<open>u\<close> is a node and \<open>v\<close> is
  a key of \<open>_succ[u]\<close> the key is deleted; otherwise the pair is skipped silently.
\<close>

definition remove_edge :: "string \<times> string \<Rightarrow> DiGraph \<Rightarrow> DiGraph" where
  "remove_edge e g =
     (case map_of g (fst e) of
        None \<Rightarrow> g
      | Some nbrs \<Rightarrow>
          if snd e \<in> set nbrs then AList.map_entry (fst e) (removeAll (snd e)) g else g)"

definition remove_edges_from :: "(string \<times> string) list \<Rightarrow> DiGraph \<Rightarrow> DiGraph" where
  "remove_edges_from ebunch g = fold remove_edge ebunch g"

text \<open>\<open>G.neighbors(n)\<close>: the successors of \<open>n\<close>; \<open>NetworkXError\<close> when \<open>n\<close> is not a node.\<close>

definition neighbors :: "DiGraph \<Rightarrow> string \<Rightarrow> error + string list" where
  "neighbors g n = (case map_of g n of None \<Rightarrow> Inl (NetworkXError n) | Some nbrs \<Rightarrow> Inr nbrs)"

text \<open>Every identifier that occurs in the adjacency, as a node or as a successor.\<close>

definition graph_ids :: "DiGraph \<Rightarrow> string set" where
  "graph_ids g = set (keys g) \<union> \<Union> (set ` snd ` set g)"

text \<open>
  The breadth-first traversal behind \<open>nx.descendants\<close>: \<open>seen\<close> holds the nodes reached so
  far, the queue the nodes whose successors are still to be scanned. A child is marked
  as seen when it is first met and then queued.
\<close>

function bfs :: "DiGraph \<Rightarrow> string list \<Rightarrow> string list \<Rightarrow> error + string list" where
  "bfs g seen [] = Inr seen"
| "bfs g seen (parent # queue) =
     (case neighbors g parent of
        Inl e \<Rightarrow> Inl e
      | Inr children \<Rightarrow>
          (let new = filter (\<lambda>c. c \<notin> set seen) children
           in bfs g (seen @ new) (queue @ new)))"
  by pat_completeness auto

lemma finite_graph_ids: "finite (graph_ids g)"
  by (simp add: graph_ids_def)

lemma neighbors_graph_ids:
  assumes "neighbors g n = Inr children"
  shows "set children \<subseteq> graph_ids g"
proof -
  from assms have "map_of g n = Some children"
    by (simp add: neighbors_def split: option.splits)
  then have "(n, children) \<in> set g"
    by (rule map_of_SomeD)
  then show ?thesis
    by (force simp: graph_ids_def)
qed

lemma bfs_measure_decreases:
  assumes "set new \<subseteq> ids" and "finite ids" and "new \<noteq> []" and "set new \<inter> set seen = {}"
  shows "card (ids - set (seen @ new)) < card (ids - set seen)"
proof -
  from assms(3) obtain c where c: "c \<in> set new"
    by (cases new) auto
  with assms(1,4) have "c \<in> ids - set seen" and "c \<notin> ids - set (seen @ new)"
    by auto
  then have "ids - set (seen @ new) \<subset> ids - set seen"
    by auto
  with assms(2) show ?thesis
    by (simp add: psubset_card_mono)
qed

termination bfs
proof (relation "measures [\<lambda>(g, seen, queue). card (graph_ids g - set seen),
                           \<lambda>(g, seen, queue). length queue]")
  show "wf (measures [\<lambda>(g, seen, queue). card (graph_ids g - set seen),
                      \<lambda>(g :: DiGraph, seen :: string list, queue :: string list). length queue])"
    by simp
next
  fix g :: DiGraph and seen parent queue children new
  assume nb: "neighbors g parent = Inr children"
    and new: "new = filter (\<lambda>c. c \<notin> set seen) children"
  show "((g, seen @ new, queue @ new), (g, seen, parent # queue))
        \<in> measures [\<lambda>(g, seen, queue). card (graph_ids g - set seen),
                     \<lambda>(g, seen, queue). length queue]"
  proof (cases "new = []")
    case True
    then show ?thesis by simp
  next
    case False
    from nb new have "set new \<subseteq> graph_ids g"
      using neighbors_graph_ids by fastforce
    moreover from new have "set new \<inter> set seen = {}"
      by auto
    ultimately have "card (graph_ids g - set (seen @ new)) < card (graph_ids g - set seen)"
      using False finite_graph_ids by (intro bfs_measure_decreases) auto
    then show ?thesis by simp
  qed
qed

text \<open>
  \<open>nx.descendants(G, source)\<close>: every node reachable from \<open>source\<close>, the source itself
  left out; \<open>NetworkXError\<close> when \<open>source\<close> is not a node of the graph.
\<close>

definition descendants :: "DiGraph \<Rightarrow> string \<Rightarrow> error + string set" where
  "descendants g source =
     (if source \<notin> set (nodes g) then Inl (NetworkXError source)
      else case bfs g [source] [source] of
             Inl e \<Rightarrow> Inl e
           | Inr seen \<Rightarrow> Inr (set seen - {source}))"

subsection \<open>The simulator\<close>

record simulator =
  file_system_data :: "string list dict"
  graph :: DiGraph

text \<open>\<open>__init__\<close>: the mapping is stored and the graph starts empty.\<close>

definition init :: "string list dict \<Rightarrow> simulator" where
  "init data = \<lparr>file_system_data = data, graph = empty_graph\<rparr>"

text \<open>
  \<open>build_dependency_graph\<close>: for every item of the mapping the path becomes a node, and
  every user of its list gets an edge to the path. Adding nodes and edges of strings
  raises nothing, so the handler of the source is never entered.
\<close>

definition build_dependency_graph :: "simulator \<Rightarrow> simulator" where
  "build_dependency_graph s =
     s\<lparr>graph :=
         fold (\<lambda>(path, permissions) g.
                 fold (\<lambda>user. add_edge user path) permissions (add_node path g))
              (file_system_data s) (graph s)\<rparr>"

text \<open>A \<open>for\<close> loop whose body may raise: the first error ends the loop.\<close>

fun for_each :: "('a \<Rightarrow> 'b \<Rightarrow> error + 'b) \<Rightarrow> 'a list \<Rightarrow> 'b \<Rightarrow> error + 'b" where
  "for_each body [] acc = Inr acc"
| "for_each body (x # xs) acc =
     (case body x acc of Inl e \<Rightarrow> Inl e | Inr acc' \<Rightarrow> for_each body xs acc')"

text \<open>
  The innermost \<open>try\<close> of \<open>simulate_rollback\<close>: the descendants of one user are added to
  the accessible resources; a \<open>NetworkXError\<close> is caught and passed over, any other
  error propagates.
\<close>

definition add_descendants :: "DiGraph \<Rightarrow> string \<Rightarrow> string set \<Rightarrow> error + string set" where
  "add_descendants g user accessible =
     (case descendants g user of
        Inr paths \<Rightarrow> Inr (accessible \<union> paths)
      | Inl (NetworkXError msg) \<Rightarrow> Inr accessible
      | Inl e \<Rightarrow> Inl e)"

text \<open>
  The body of the loop over the graph's nodes: a node that is a key of the mapping is a
  resource, and each user of its permission list contributes its descendants. Every
  node is a string here, so the \<open>isinstance\<close> test of the source always holds.
\<close>

definition scan_node :: "string list dict \<Rightarrow> DiGraph \<Rightarrow> string \<Rightarrow> string set \<Rightarrow> error + string set" where
  "scan_node data g node accessible =
     (if node \<in> set (keys data) then
        (case getitem data node of
           Inl e \<Rightarrow> Inl e
         | Inr users \<Rightarrow> for_each (add_descendants g) users accessible)
      else Inr accessible)"

text \<open>
  \<open>simulate_rollback\<close>: returns the simulator with its graph mutated, the directly
  impacted resources and the indirectly impacted ones. An error that reaches the outer
  handler is logged and raised again, so it is the result \<open>Inl\<close>.
\<close>

definition simulate_rollback ::
  "simulator \<Rightarrow> string \<Rightarrow> error + (simulator \<times> string set \<times> string set)" where
  "simulate_rollback s target_user =
     (let impacted_resources = set (map snd (filter (\<lambda>(u, v). u = target_user) (edges (graph s))));
          edges_to_remove = filter (\<lambda>(u, v). u = target_user) (edges (graph s));
          g = remove_edges_from edges_to_remove (graph s)
      in case for_each (scan_node (file_system_data s) g) (nodes g) {} of
           Inl e \<Rightarrow> Inl e
         | Inr accessible_resources \<Rightarrow>
             Inr (s\<lparr>graph := g\<rparr>, impacted_resources,
                  set (keys (file_system_data s)) - accessible_resources))"

subsection \<open>Invariant and specification-level notions\<close>

text \<open>
  The invariant of a \<open>DiGraph\<close>: the adjacency is a dict (distinct nodes), the successors
  of a node are the keys of a dict (distinct), and every successor is itself a node.
  Every graph the simulator can hold satisfies it: the empty graph does, and adding
  nodes, adding edges and removing edges keep it (\<open>wf_empty_graph\<close>, \<open>wf_add_node\<close>,
  \<open>wf_add_edge\<close>, \<open>wf_remove_edges_from\<close> below).
\<close>

definition wf_graph :: "DiGraph \<Rightarrow> bool" where
  "wf_graph g =
     (distinct (keys g) \<and> (\<forall>(n, nbrs) \<in> set g. distinct nbrs \<and> set nbrs \<subseteq> set (keys g)))"

text \<open>The body of the loop of \<open>build_dependency_graph\<close> for one item of the mapping.\<close>

definition build_item :: "string \<times> string list \<Rightarrow> DiGraph \<Rightarrow> DiGraph" where
  "build_item = (\<lambda>(path, permissions) g.
                 fold (\<lambda>user. add_edge user path) permissions (add_node path g))"

text \<open>
  The transitive descendant set of a node: what is reached from it along one or more
  edges, the node itself left out (a node is not its own descendant, also on a cycle).
  This is the specification-level notion; \<open>descendants_correct\<close> below shows that the
  traversal of \<open>descendants\<close> computes it on every graph that satisfies the invariant.
\<close>

definition descendant_set :: "DiGraph \<Rightarrow> string \<Rightarrow> string set" where
  "descendant_set g p = {v. (p, v) \<in> (set (edges g))\<^sup>+ \<and> v \<noteq> p}"

text \<open>What one resource contributes to the accessible resources.\<close>

definition rescued_by :: "string list dict \<Rightarrow> DiGraph \<Rightarrow> string \<Rightarrow> string set" where
  "rescued_by data g r = (\<Union>p \<in> set (the (map_of data r)). descendant_set g p)"

text \<open>The graph after the revocation step.\<close>

definition revoke :: "string \<Rightarrow> DiGraph \<Rightarrow> DiGraph" where
  "revoke target_user g =
     remove_edges_from (filter (\<lambda>(u, v). u = target_user) (edges g)) g"

text \<open>
  Two mappings that differ only in the order of their keys and in the order of the
  principals within each permission list.
\<close>

definition same_mapping :: "string list dict \<Rightarrow> string list dict \<Rightarrow> bool" where
  "same_mapping m m' =
     (is_dict m \<and> is_dict m' \<and> set (keys m) = set (keys m') \<and>
      (\<forall>k \<in> set (keys m). mset (the (map_of m k)) = mset (the (map_of m' k))))"

text \<open>The example mappings of the specification's testable properties.\<close>

definition two_grantors :: "string list dict" where
  "two_grantors = [(''A'', [''u1'']), (''B'', [''u1'', ''u2''])]"

definition one_grant :: "string list dict" where
  "one_grant = [(''A'', [''u1''])]"

definition self_grant :: "string list dict" where
  "self_grant = [(''X'', [''X''])]"

definition duplicate_grant :: "string list dict" where
  "duplicate_grant = [(''R'', [''u1'', ''u1''])]"

definition two_grantors_reordered :: "string list dict" where
  "two_grantors_reordered = [(''B'', [''u2'', ''u1'']), (''A'', [''u1''])]"

section \<open>The graph operations\<close>

lemma keys_map_entry: "keys (AList.map_entry k f g) = keys g"
  by (induction g) (auto simp: keys_def)

lemma set_edges: "set (edges g) = {(u, v). \<exists>nbrs. (u, nbrs) \<in> set g \<and> v \<in> set nbrs}"
  by (auto simp: edges_def)

lemma edges_map_of:
  assumes "distinct (keys g)"
  shows "set (edges g) = {(u, v). \<exists>nbrs. map_of g u = Some nbrs \<and> v \<in> set nbrs}"
  using assms by (auto simp: set_edges keys_def dest: map_of_SomeD)

lemma edges_source_is_node: "(u, v) \<in> set (edges g) \<Longrightarrow> u \<in> set (nodes g)"
  by (force simp: set_edges nodes_def keys_def)

lemma edges_target_is_node: "wf_graph g \<Longrightarrow> (u, v) \<in> set (edges g) \<Longrightarrow> v \<in> set (nodes g)"
  by (fastforce simp: set_edges nodes_def wf_graph_def)

lemma distinct_edges:
  assumes "wf_graph g"
  shows "distinct (edges g)"
proof -
  have "distinct (map fst g) \<Longrightarrow> \<forall>(n, nbrs) \<in> set g. distinct nbrs \<Longrightarrow>
        distinct (concat (map (\<lambda>(u, nbrs). map (Pair u) nbrs) g))"
  proof (induction g)
    case Nil
    then show ?case by simp
  next
    case (Cons a g)
    obtain u nbrs where a: "a = (u, nbrs)" by (cases a)
    from Cons.prems a have "distinct (map (Pair u) nbrs)"
      by (simp add: distinct_map inj_on_def)
    moreover from Cons have "distinct (concat (map (\<lambda>(u, nbrs). map (Pair u) nbrs) g))"
      by simp
    moreover from Cons.prems a
    have "set (map (Pair u) nbrs) \<inter> set (concat (map (\<lambda>(u, nbrs). map (Pair u) nbrs) g)) = {}"
      by force
    ultimately show ?case
      using a by simp
  qed
  with assms show ?thesis
    by (auto simp: wf_graph_def edges_def keys_def)
qed

subsection \<open>Adding nodes\<close>

lemma keys_add_node: "set (keys (add_node n g)) = insert n (set (keys g))"
  by (auto simp: add_node_def keys_def)

lemma edges_add_node: "edges (add_node n g) = edges g"
  by (simp add: add_node_def edges_def)

lemma wf_add_node: "wf_graph g \<Longrightarrow> wf_graph (add_node n g)"
  by (auto simp: wf_graph_def add_node_def keys_def)

subsection \<open>Adding edges\<close>

lemma keys_add_edge: "set (keys (add_edge u v g)) = insert u (insert v (set (keys g)))"
  by (auto simp: add_edge_def keys_map_entry keys_add_node)

lemma set_map_entry:
  "k \<in> set (keys g) \<Longrightarrow> distinct (keys g) \<Longrightarrow>
   set (AList.map_entry k f g) = (\<lambda>(n, x). if n = k then (n, f x) else (n, x)) ` set g"
proof (induction g)
  case Nil
  then show ?case by (simp add: keys_def)
next
  case (Cons a g)
  obtain n x where a: "a = (n, x)" by (cases a)
  show ?case
  proof (cases "n = k")
    case True
    with Cons.prems a have "k \<notin> fst ` set g" by (simp add: keys_def)
    then have "(\<lambda>(n, x). if n = k then (n, f x) else (n, x)) ` set g = set g"
      by (force simp: image_iff split: prod.splits)
    with True a show ?thesis by simp
  next
    case False
    with Cons.prems a have "k \<in> set (keys g)" and "distinct (keys g)"
      by (simp_all add: keys_def)
    then have "set (AList.map_entry k f g) = (\<lambda>(n, x). if n = k then (n, f x) else (n, x)) ` set g"
      by (rule Cons.IH)
    with False a show ?thesis by simp
  qed
qed

lemma wf_add_edge:
  assumes "wf_graph g"
  shows "wf_graph (add_edge u v g)"
proof -
  let ?h = "add_node v (add_node u g)"
  let ?f = "\<lambda>nbrs. if v \<in> set nbrs then nbrs else nbrs @ [v]"
  have wf: "wf_graph ?h" using assms by (simp add: wf_add_node)
  have u: "u \<in> set (keys ?h)" and v: "v \<in> set (keys ?h)" by (simp_all add: keys_add_node)
  have dist: "distinct (keys ?h)" using wf by (simp add: wf_graph_def)
  have img: "set (AList.map_entry u ?f ?h)
        = (\<lambda>(n, x). if n = u then (n, ?f x) else (n, x)) ` set ?h"
    using u dist by (rule set_map_entry)
  have "distinct nbrs \<and> set nbrs \<subseteq> set (keys ?h)"
    if "(n, nbrs) \<in> set (AList.map_entry u ?f ?h)" for n nbrs
  proof -
    from that img obtain y where y: "(n, y) \<in> set ?h" and nbrs: "nbrs = ?f y \<or> nbrs = y"
      by (auto split: if_splits)
    from wf y have "distinct y" and "set y \<subseteq> set (keys ?h)"
      by (auto simp: wf_graph_def)
    with nbrs v show ?thesis
      by (auto split: if_splits)
  qed
  with dist show ?thesis
    unfolding add_edge_def wf_graph_def keys_map_entry by blast
qed

lemma edges_map_entry_insert:
  assumes "\<And>x. set (f x) = insert v (set x)" and "k \<in> set (keys h)"
  shows "set (edges (AList.map_entry k f h)) = insert (k, v) (set (edges h))"
  using assms(2)
proof (induction h)
  case Nil
  then show ?case by (simp add: keys_def)
next
  case (Cons a h)
  obtain n nbrs where a: "a = (n, nbrs)" by (cases a)
  show ?case
  proof (cases "n = k")
    case True
    with a assms(1) show ?thesis
      by (auto simp: edges_def)
  next
    case False
    with Cons.prems a have "k \<in> set (keys h)" by (simp add: keys_def)
    then have "set (edges (AList.map_entry k f h)) = insert (k, v) (set (edges h))"
      by (rule Cons.IH)
    with False a show ?thesis
      by (auto simp: edges_def)
  qed
qed

lemma edges_add_edge: "set (edges (add_edge u v g)) = insert (u, v) (set (edges g))"
  unfolding add_edge_def
  by (subst edges_map_entry_insert) (auto simp: keys_add_node edges_add_node)

lemma wf_graph_map_of:
  "wf_graph g \<longleftrightarrow>
     distinct (keys g) \<and>
     (\<forall>n nbrs. map_of g n = Some nbrs \<longrightarrow> distinct nbrs \<and> set nbrs \<subseteq> set (keys g))"
proof
  assume "wf_graph g"
  then show "distinct (keys g) \<and>
     (\<forall>n nbrs. map_of g n = Some nbrs \<longrightarrow> distinct nbrs \<and> set nbrs \<subseteq> set (keys g))"
    by (auto simp: wf_graph_def dest!: map_of_SomeD)
next
  assume r: "distinct (keys g) \<and>
     (\<forall>n nbrs. map_of g n = Some nbrs \<longrightarrow> distinct nbrs \<and> set nbrs \<subseteq> set (keys g))"
  then have "map_of g n = Some nbrs" if "(n, nbrs) \<in> set g" for n nbrs
    using that by (simp add: keys_def)
  with r show "wf_graph g"
    unfolding wf_graph_def by blast
qed

subsection \<open>Removing edges\<close>

lemma keys_remove_edge: "keys (remove_edge e g) = keys g"
  by (simp add: remove_edge_def keys_map_entry split: option.splits)

lemma keys_remove_edges_from: "keys (remove_edges_from es g) = keys g"
  unfolding remove_edges_from_def
  by (induction es arbitrary: g) (simp_all add: keys_remove_edge)

lemma map_of_remove_edge:
  "map_of (remove_edge (u, v) g) =
     (case map_of g u of None \<Rightarrow> map_of g | Some nbrs \<Rightarrow> (map_of g)(u \<mapsto> removeAll v nbrs))"
proof (cases "map_of g u")
  case None
  then show ?thesis by (simp add: remove_edge_def)
next
  case (Some nbrs)
  show ?thesis
  proof (cases "v \<in> set nbrs")
    case True
    with Some show ?thesis
      by (simp add: remove_edge_def AList.map_of_map_entry)
  next
    case False
    then have "removeAll v nbrs = nbrs" by simp
    with Some False show ?thesis
      by (simp add: remove_edge_def map_upd_triv)
  qed
qed

lemma edges_remove_edge:
  assumes "distinct (keys g)"
  shows "set (edges (remove_edge (u, v) g)) = set (edges g) - {(u, v)}"
proof (cases "map_of g u")
  case None
  then have "(u, v) \<notin> set (edges g)"
    using assms by (simp add: edges_map_of)
  with None show ?thesis
    by (simp add: remove_edge_def)
next
  case (Some nbrs)
  have d: "distinct (keys (remove_edge (u, v) g))"
    using assms by (simp add: keys_remove_edge)
  have m: "map_of (remove_edge (u, v) g) = (map_of g)(u \<mapsto> removeAll v nbrs)"
    using Some by (simp add: map_of_remove_edge)
  have "(a, b) \<in> set (edges (remove_edge (u, v) g)) \<longleftrightarrow> (a, b) \<in> set (edges g) - {(u, v)}"
    for a b
  proof (cases "a = u")
    case True
    with Some show ?thesis
      by (simp add: edges_map_of [OF d] edges_map_of [OF assms] m)
  next
    case False
    then show ?thesis
      by (simp add: edges_map_of [OF d] edges_map_of [OF assms] m)
  qed
  then show ?thesis
    by (intro set_eqI) (simp only: split_paired_all)
qed

lemma wf_remove_edge:
  assumes "wf_graph g"
  shows "wf_graph (remove_edge e g)"
proof -
  obtain u v where e: "e = (u, v)" by (cases e)
  from assms have d: "distinct (keys g)"
    and c: "\<And>n nbrs. map_of g n = Some nbrs \<Longrightarrow> distinct nbrs \<and> set nbrs \<subseteq> set (keys g)"
    unfolding wf_graph_map_of by blast+
  have "distinct nbrs \<and> set nbrs \<subseteq> set (keys g)"
    if "map_of (remove_edge (u, v) g) n = Some nbrs" for n nbrs
  proof (cases "map_of g u")
    case None
    with that have "map_of g n = Some nbrs" by (simp add: map_of_remove_edge)
    then show ?thesis by (rule c)
  next
    case (Some old)
    show ?thesis
    proof (cases "n = u")
      case True
      with that Some have "nbrs = removeAll v old" by (simp add: map_of_remove_edge)
      moreover from Some have "distinct old \<and> set old \<subseteq> set (keys g)" by (rule c)
      ultimately show ?thesis by (auto simp: distinct_removeAll)
    next
      case False
      with that Some have "map_of g n = Some nbrs" by (simp add: map_of_remove_edge)
      then show ?thesis by (rule c)
    qed
  qed
  with d show ?thesis
    unfolding e wf_graph_map_of keys_remove_edge by blast
qed

lemma wf_remove_edges_from: "wf_graph g \<Longrightarrow> wf_graph (remove_edges_from es g)"
  unfolding remove_edges_from_def
  by (induction es arbitrary: g) (simp_all add: wf_remove_edge)

lemma edges_remove_edges_from:
  "distinct (keys g) \<Longrightarrow> set (edges (remove_edges_from es g)) = set (edges g) - set es"
  unfolding remove_edges_from_def
proof (induction es arbitrary: g)
  case Nil
  then show ?case by simp
next
  case (Cons e es)
  obtain u v where e: "e = (u, v)" by (cases e)
  from Cons.prems have "distinct (keys (remove_edge e g))"
    by (simp add: keys_remove_edge)
  then have "set (edges (fold remove_edge es (remove_edge e g)))
             = set (edges (remove_edge e g)) - set es"
    by (rule Cons.IH)
  with Cons.prems e show ?case
    by (auto simp: edges_remove_edge)
qed

subsection \<open>Building the graph\<close>

lemma wf_empty_graph: "wf_graph empty_graph"
  by (simp add: wf_graph_def empty_graph_def keys_def)

lemma fold_add_edge:
  "set (keys (fold (\<lambda>user. add_edge user path) ps g))
     = set (keys g) \<union> set ps \<union> (if ps = [] then {} else {path})
   \<and> set (edges (fold (\<lambda>user. add_edge user path) ps g))
     = set (edges g) \<union> (\<lambda>p. (p, path)) ` set ps
   \<and> (wf_graph g \<longrightarrow> wf_graph (fold (\<lambda>user. add_edge user path) ps g))"
proof (induction ps arbitrary: g)
  case Nil
  then show ?case by simp
next
  case (Cons p ps)
  from Cons.IH [of "add_edge p path g"] show ?case
    by (auto simp: keys_add_edge edges_add_edge wf_add_edge)
qed

lemma build_item:
  "set (keys (build_item (path, ps) g)) = insert path (set (keys g) \<union> set ps)"
  "set (edges (build_item (path, ps) g)) = set (edges g) \<union> (\<lambda>p. (p, path)) ` set ps"
  "wf_graph g \<Longrightarrow> wf_graph (build_item (path, ps) g)"
  using fold_add_edge [of path ps "add_node path g"]
  by (auto simp: build_item_def keys_add_node edges_add_node wf_add_node)

lemma fold_build_item:
  "set (keys (fold build_item m g)) = set (keys g) \<union> set (keys m) \<union> \<Union> (set ` snd ` set m)
   \<and> set (edges (fold build_item m g))
       = set (edges g) \<union> {(p, r). \<exists>ps. (r, ps) \<in> set m \<and> p \<in> set ps}
   \<and> (wf_graph g \<longrightarrow> wf_graph (fold build_item m g))"
proof (induction m arbitrary: g)
  case Nil
  then show ?case by (simp add: keys_def)
next
  case (Cons a m)
  obtain path ps where a: "a = (path, ps)" by (cases a)
  have k: "set (keys (a # m)) = insert path (set (keys m))"
    by (simp add: a keys_def)
  from Cons.IH [of "build_item a g"] show ?case
    unfolding a k [unfolded a]
    by (simp add: build_item) blast
qed

lemma graph_build:
  "graph (build_dependency_graph s) = fold build_item (file_system_data s) (graph s)"
  by (simp add: build_dependency_graph_def build_item_def)

subsection \<open>Breadth-first traversal and descendants\<close>

lemma neighbors_error: "neighbors g n = Inl e \<Longrightarrow> e = NetworkXError n"
  by (simp add: neighbors_def split: option.splits)

lemma neighbors_edges:
  assumes "distinct (keys g)" and "neighbors g n = Inr children"
  shows "set children = set (edges g) `` {n}"
proof -
  from assms(2) have "map_of g n = Some children"
    by (simp add: neighbors_def split: option.splits)
  then show ?thesis
    by (auto simp: edges_map_of [OF assms(1)])
qed

lemma neighbors_node:
  "n \<in> set (keys g) \<Longrightarrow> \<exists>children. neighbors g n = Inr children"
  by (cases "map_of g n") (auto simp: neighbors_def keys_def map_of_eq_None_iff)

lemma bfs_error: "bfs g seen queue = Inl e \<Longrightarrow> \<exists>n. e = NetworkXError n"
proof (induction g seen queue rule: bfs.induct)
  case (1 g seen)
  then show ?case by simp
next
  case (2 g seen parent queue)
  show ?case
  proof (cases "neighbors g parent")
    case (Inl e')
    with "2.prems" have "e = e'" by simp
    with Inl show ?thesis by (auto dest: neighbors_error)
  next
    case (Inr children)
    with "2.prems" have "bfs g (seen @ filter (\<lambda>c. c \<notin> set seen) children)
                            (queue @ filter (\<lambda>c. c \<notin> set seen) children) = Inl e"
      by (simp add: Let_def)
    with Inr show ?thesis
      by (intro "2.IH" [OF Inr refl])
  qed
qed

lemma bfs_returns:
  "wf_graph g \<Longrightarrow> set queue \<subseteq> set (keys g) \<Longrightarrow> \<exists>r. bfs g seen queue = Inr r"
proof (induction g seen queue rule: bfs.induct)
  case (1 g seen)
  then show ?case by simp
next
  case (2 g seen parent queue)
  from "2.prems" have "parent \<in> set (keys g)" by simp
  then obtain children where ch: "neighbors g parent = Inr children"
    using neighbors_node by blast
  then have "map_of g parent = Some children"
    by (simp add: neighbors_def split: option.splits)
  with "2.prems"(1) have "set children \<subseteq> set (keys g)"
    unfolding wf_graph_map_of by blast
  with "2.prems" have "set (queue @ filter (\<lambda>c. c \<notin> set seen) children) \<subseteq> set (keys g)"
    by auto
  with "2.prems"(1)
  have "\<exists>r. bfs g (seen @ filter (\<lambda>c. c \<notin> set seen) children)
                  (queue @ filter (\<lambda>c. c \<notin> set seen) children) = Inr r"
    by (intro "2.IH" [OF ch refl])
  with ch show ?case by (simp add: Let_def)
qed

lemma bfs_closure:
  "distinct (keys g) \<Longrightarrow> bfs g seen queue = Inr r \<Longrightarrow> set queue \<subseteq> set seen \<Longrightarrow>
   (\<And>x. x \<in> set seen \<Longrightarrow> x \<notin> set queue \<Longrightarrow> set (edges g) `` {x} \<subseteq> set seen) \<Longrightarrow>
   set seen \<subseteq> set r \<and> set (edges g) `` set r \<subseteq> set r
   \<and> set r \<subseteq> (set (edges g))\<^sup>* `` set seen"
proof (induction g seen queue rule: bfs.induct)
  case (1 g seen)
  then have "r = seen" by simp
  with "1.prems" show ?case by auto
next
  case (2 g seen parent queue)
  let ?E = "set (edges g)"
  note dist = "2.prems"(1)
  from "2.prems"(2) obtain children where ch: "neighbors g parent = Inr children"
    by (cases "neighbors g parent") auto
  define new where "new = filter (\<lambda>c. c \<notin> set seen) children"
  from "2.prems"(2) ch have run: "bfs g (seen @ new) (queue @ new) = Inr r"
    by (simp add: new_def Let_def)
  have succ: "set children = ?E `` {parent}"
    using dist ch by (rule neighbors_edges)
  have new: "set new = ?E `` {parent} - set seen"
    by (auto simp: new_def succ)
  have q: "set (queue @ new) \<subseteq> set (seen @ new)"
    using "2.prems"(3) by auto
  have scanned: "?E `` {x} \<subseteq> set (seen @ new)"
    if "x \<in> set (seen @ new)" "x \<notin> set (queue @ new)" for x
  proof (cases "x = parent")
    case True
    then show ?thesis using new by auto
  next
    case False
    with that have "x \<in> set seen" "x \<notin> set (parent # queue)" by auto
    then have "?E `` {x} \<subseteq> set seen" by (rule "2.prems"(4))
    then show ?thesis by auto
  qed
  from "2.IH" [OF ch new_def dist run q scanned]
  have r: "set (seen @ new) \<subseteq> set r" "?E `` set r \<subseteq> set r"
    "set r \<subseteq> ?E\<^sup>* `` set (seen @ new)"
    by simp_all
  have "parent \<in> set seen" using "2.prems"(3) by simp
  then have "set new \<subseteq> ?E\<^sup>* `` set seen"
    using new by auto
  then have "?E\<^sup>* `` set (seen @ new) \<subseteq> ?E\<^sup>* `` set seen"
    by (auto intro: rtrancl_trans)
  with r show ?case by auto
qed

lemma closed_rtrancl:
  assumes "E `` S \<subseteq> S" and "s \<in> S" and "(s, v) \<in> E\<^sup>*"
  shows "v \<in> S"
  using assms(3,1,2) by (induction rule: rtrancl_induct) auto

lemma bfs_reachable:
  assumes "distinct (keys g)" and "bfs g [s] [s] = Inr r"
  shows "set r = (set (edges g))\<^sup>* `` {s}"
proof -
  from bfs_closure [OF assms(1) assms(2)]
  have r: "s \<in> set r" "set (edges g) `` set r \<subseteq> set r" "set r \<subseteq> (set (edges g))\<^sup>* `` {s}"
    by simp_all
  from r(1,2) have "(set (edges g))\<^sup>* `` {s} \<subseteq> set r"
    by (auto intro: closed_rtrancl)
  with r(3) show ?thesis by blast
qed

lemma descendant_set_rtrancl: "descendant_set g s = (set (edges g))\<^sup>* `` {s} - {s}"
  by (auto simp: descendant_set_def rtrancl_eq_or_trancl)

lemma descendant_set_absent:
  assumes "s \<notin> set (nodes g)"
  shows "descendant_set g s = {}"
proof -
  have "False" if "(s, v) \<in> (set (edges g))\<^sup>+" for v
    using that assms by (induction rule: trancl_induct) (auto dest: edges_source_is_node)
  then show ?thesis
    by (auto simp: descendant_set_def)
qed

lemma descendants_correct:
  assumes "wf_graph g"
  shows "descendants g s =
           (if s \<in> set (nodes g) then Inr (descendant_set g s) else Inl (NetworkXError s))"
proof (cases "s \<in> set (nodes g)")
  case False
  then show ?thesis by (simp add: descendants_def)
next
  case True
  then have "set [s] \<subseteq> set (keys g)" by (simp add: nodes_def)
  with assms obtain r where r: "bfs g [s] [s] = Inr r"
    using bfs_returns by blast
  from assms have "distinct (keys g)" by (simp add: wf_graph_def)
  then have "set r = (set (edges g))\<^sup>* `` {s}"
    using r by (rule bfs_reachable)
  with True r show ?thesis
    by (simp add: descendants_def descendant_set_rtrancl)
qed

lemma descendants_error: "descendants g s = Inl e \<Longrightarrow> \<exists>n. e = NetworkXError n"
  by (auto simp: descendants_def simp del: bfs.simps split: if_splits sum.splits dest: bfs_error)

subsection \<open>The simulation\<close>

lemma add_descendants_returns: "\<exists>acc'. add_descendants g user acc = Inr acc'"
proof (cases "descendants g user")
  case (Inl e)
  then obtain n where "e = NetworkXError n"
    using descendants_error by blast
  with Inl show ?thesis by (simp add: add_descendants_def)
next
  case (Inr paths)
  then show ?thesis by (simp add: add_descendants_def)
qed

lemma add_descendants_absent:
  "user \<notin> set (nodes g) \<Longrightarrow> add_descendants g user acc = Inr acc"
  by (simp add: add_descendants_def descendants_def)

lemma add_descendants_correct:
  assumes "wf_graph g"
  shows "add_descendants g user acc = Inr (acc \<union> descendant_set g user)"
proof (cases "user \<in> set (nodes g)")
  case True
  with assms show ?thesis
    by (simp add: add_descendants_def descendants_correct)
next
  case False
  then show ?thesis
    by (simp add: add_descendants_absent descendant_set_absent)
qed

lemma for_each_returns:
  assumes "\<And>x acc. \<exists>acc'. body x acc = Inr acc'"
  shows "\<exists>acc'. for_each body xs acc = Inr acc'"
proof (induction xs arbitrary: acc)
  case Nil
  then show ?case by simp
next
  case (Cons x xs)
  from assms obtain a where "body x acc = Inr a" by blast
  with Cons.IH [of a] show ?case by simp
qed

lemma for_each_union:
  assumes "\<And>x acc. body x acc = Inr (acc \<union> f x)"
  shows "for_each body xs acc = Inr (acc \<union> \<Union> (f ` set xs))"
proof (induction xs arbitrary: acc)
  case Nil
  then show ?case by simp
next
  case (Cons x xs)
  have "for_each body (x # xs) acc = for_each body xs (acc \<union> f x)"
    by (simp add: assms)
  also have "\<dots> = Inr ((acc \<union> f x) \<union> \<Union> (f ` set xs))"
    by (rule Cons.IH)
  finally show ?case by (simp add: Un_assoc)
qed

lemma getitem_key: "k \<in> set (keys d) \<Longrightarrow> getitem d k = Inr (the (map_of d k))"
  by (cases "map_of d k") (auto simp: getitem_def keys_def map_of_eq_None_iff)

lemma scan_node_returns: "\<exists>acc'. scan_node data g node acc = Inr acc'"
proof (cases "node \<in> set (keys data)")
  case True
  then show ?thesis
    using for_each_returns [of "add_descendants g", OF add_descendants_returns]
    by (simp add: scan_node_def getitem_key)
next
  case False
  then show ?thesis by (simp add: scan_node_def)
qed

lemma scan_node_correct:
  assumes "wf_graph g"
  shows "scan_node data g node acc =
           Inr (acc \<union> (if node \<in> set (keys data) then rescued_by data g node else {}))"
proof (cases "node \<in> set (keys data)")
  case True
  have "for_each (add_descendants g) users acc = Inr (acc \<union> \<Union> (descendant_set g ` set users))"
    for users
    by (rule for_each_union) (rule add_descendants_correct [OF assms])
  with True show ?thesis
    by (simp add: scan_node_def getitem_key rescued_by_def)
next
  case False
  then show ?thesis by (simp add: scan_node_def)
qed

lemma scan_nodes_correct:
  assumes "wf_graph g"
  shows "for_each (scan_node data g) ns {} =
           Inr (\<Union>r \<in> set ns \<inter> set (keys data). rescued_by data g r)"
proof -
  have "for_each (scan_node data g) ns {} =
          Inr ({} \<union> \<Union> ((\<lambda>n. if n \<in> set (keys data) then rescued_by data g n else {}) ` set ns))"
    by (rule for_each_union) (rule scan_node_correct [OF assms])
  moreover have "\<Union> ((\<lambda>n. if n \<in> set (keys data) then rescued_by data g n else {}) ` set ns)
                 = (\<Union>r \<in> set ns \<inter> set (keys data). rescued_by data g r)"
    by (auto split: if_splits)
  ultimately show ?thesis by simp
qed

lemma keys_revoke: "keys (revoke t g) = keys g"
  by (simp add: revoke_def keys_remove_edges_from)

lemma nodes_revoke: "nodes (revoke t g) = nodes g"
  by (simp add: nodes_def keys_revoke)

lemma wf_revoke: "wf_graph g \<Longrightarrow> wf_graph (revoke t g)"
  by (simp add: revoke_def wf_remove_edges_from)

lemma edges_revoke:
  assumes "wf_graph g"
  shows "set (edges (revoke t g)) = {(u, v). (u, v) \<in> set (edges g) \<and> u \<noteq> t}"
proof -
  from assms have "distinct (keys g)" by (simp add: wf_graph_def)
  then show ?thesis
    unfolding revoke_def by (subst edges_remove_edges_from) auto
qed

lemma revoke_noop:
  assumes "\<And>v. (t, v) \<notin> set (edges g)"
  shows "revoke t g = g"
proof -
  from assms have "filter (\<lambda>(u, v). u = t) (edges g) = []"
    by (auto simp: filter_empty_conv)
  then show ?thesis
    by (simp add: revoke_def remove_edges_from_def)
qed

lemma direct_impact:
  "set (map snd (filter (\<lambda>(u, v). u = t) (edges g))) = {v. (t, v) \<in> set (edges g)}"
  by (auto simp: image_iff)

lemma simulate_rollback_returns:
  "\<exists>accessible. simulate_rollback s t =
     Inr (s\<lparr>graph := revoke t (graph s)\<rparr>, {v. (t, v) \<in> set (edges (graph s))},
          set (keys (file_system_data s)) - accessible)"
proof -
  obtain a where "for_each (scan_node (file_system_data s) (revoke t (graph s)))
                    (nodes (revoke t (graph s))) {} = Inr a"
    using for_each_returns [of "scan_node (file_system_data s) (revoke t (graph s))",
                            OF scan_node_returns]
    by blast
  then show ?thesis
    unfolding simulate_rollback_def Let_def direct_impact revoke_def [symmetric]
    by auto
qed

lemma simulate_rollback_correct:
  assumes "wf_graph (graph s)"
  shows "simulate_rollback s t =
     Inr (s\<lparr>graph := revoke t (graph s)\<rparr>, {v. (t, v) \<in> set (edges (graph s))},
          set (keys (file_system_data s))
          - (\<Union>r \<in> set (nodes (graph s)) \<inter> set (keys (file_system_data s)).
               rescued_by (file_system_data s) (revoke t (graph s)) r))"
  unfolding simulate_rollback_def Let_def direct_impact revoke_def [symmetric]
  by (simp add: scan_nodes_correct [OF wf_revoke [OF assms]] nodes_revoke)

subsection \<open>The graph built from a mapping\<close>

lemma graph_built:
  "graph (build_dependency_graph (init m)) = fold build_item m empty_graph"
  by (simp add: graph_build init_def)

lemma wf_built: "wf_graph (graph (build_dependency_graph (init m)))"
  using fold_build_item [of m empty_graph]
  by (simp add: graph_built wf_empty_graph)

lemma nodes_built:
  "set (nodes (graph (build_dependency_graph (init m)))) = set (keys m) \<union> \<Union> (set ` snd ` set m)"
  using fold_build_item [of m empty_graph]
  by (simp add: graph_built nodes_def) (simp add: empty_graph_def keys_def)

lemma edges_built:
  "set (edges (graph (build_dependency_graph (init m))))
     = {(p, r). \<exists>ps. (r, ps) \<in> set m \<and> p \<in> set ps}"
  using fold_build_item [of m empty_graph]
  by (simp add: graph_built) (simp add: empty_graph_def edges_def)

lemma data_built: "file_system_data (build_dependency_graph (init m)) = m"
  by (simp add: build_dependency_graph_def init_def)

lemma dict_entry: "is_dict m \<Longrightarrow> (r, ps) \<in> set m \<longleftrightarrow> map_of m r = Some ps"
  by (auto simp: is_dict_def dest: map_of_SomeD)

lemma edges_built_dict:
  assumes "is_dict m"
  shows "(p, r) \<in> set (edges (graph (build_dependency_graph (init m))))
         \<longleftrightarrow> (\<exists>ps. map_of m r = Some ps \<and> p \<in> set ps)"
  by (simp add: edges_built dict_entry [OF assms])

lemma simulate_built:
  "simulate_rollback (build_dependency_graph (init m)) t =
     Inr ((build_dependency_graph (init m))\<lparr>graph := revoke t (graph (build_dependency_graph (init m)))\<rparr>,
          {v. (t, v) \<in> set (edges (graph (build_dependency_graph (init m))))},
          set (keys m)
          - (\<Union>r \<in> set (keys m). \<Union>p \<in> set (the (map_of m r)).
               descendant_set (revoke t (graph (build_dependency_graph (init m)))) p))"
proof -
  let ?s = "build_dependency_graph (init m)"
  have "set (nodes (graph ?s)) \<inter> set (keys m) = set (keys m)"
    by (auto simp: nodes_built)
  then show ?thesis
    using simulate_rollback_correct [OF wf_built, of m t]
    by (simp add: data_built rescued_by_def)
qed

lemma only_self_reaches:
  assumes "\<And>q. (q, x) \<in> E \<Longrightarrow> q = x" and "(p, y) \<in> E\<^sup>+" and "y = x"
  shows "p = x"
  using assms(2,3)
proof (induction rule: trancl_induct)
  case (base y)
  then show ?case using assms(1) by blast
next
  case (step y z)
  then have "y = x" using assms(1) by blast
  then show ?case by (rule step.IH)
qed

lemma same_mapping_entries:
  assumes "same_mapping m m'"
  shows "{(p, r). \<exists>ps. (r, ps) \<in> set m \<and> p \<in> set ps}
         \<subseteq> {(p, r). \<exists>ps. (r, ps) \<in> set m' \<and> p \<in> set ps}"
proof (clarify)
  fix p r ps
  assume e: "(r, ps) \<in> set m" and p: "p \<in> set ps"
  from assms have d: "is_dict m" "is_dict m'" and k: "set (keys m) = set (keys m')"
    and v: "\<And>k. k \<in> set (keys m) \<Longrightarrow> mset (the (map_of m k)) = mset (the (map_of m' k))"
    unfolding same_mapping_def by blast+
  from e have rk: "r \<in> set (keys m)" by (force simp: keys_def)
  from e d(1) have "map_of m r = Some ps" by (simp add: dict_entry)
  with v [OF rk] have ms: "mset ps = mset (the (map_of m' r))" by simp
  from rk k have "r \<in> set (keys m')" by simp
  then obtain ps' where ps': "map_of m' r = Some ps'"
    by (cases "map_of m' r") (auto simp: keys_def map_of_eq_None_iff)
  with ms have "set ps = set ps'"
    by (auto dest: mset_eq_setD)
  moreover from ps' have "(r, ps') \<in> set m'" by (rule map_of_SomeD)
  ultimately show "\<exists>ps. (r, ps) \<in> set m' \<and> p \<in> set ps"
    using p by blast
qed

lemma same_mapping_sym: "same_mapping m m' \<Longrightarrow> same_mapping m' m"
  unfolding same_mapping_def by simp

lemma same_mapping_values:
  assumes "same_mapping m m'"
  shows "\<Union> (set ` snd ` set m) \<subseteq> \<Union> (set ` snd ` set m')"
proof
  fix p assume "p \<in> \<Union> (set ` snd ` set m)"
  then obtain r ps where "(r, ps) \<in> set m" "p \<in> set ps" by auto
  then have "(p, r) \<in> {(p, r). \<exists>ps. (r, ps) \<in> set m \<and> p \<in> set ps}" by blast
  with same_mapping_entries [OF assms]
  have "(p, r) \<in> {(p, r). \<exists>ps. (r, ps) \<in> set m' \<and> p \<in> set ps}" by blast
  then show "p \<in> \<Union> (set ` snd ` set m')" by force
qed

subsection \<open>The examples, evaluated\<close>

lemmas model_defs = simulate_rollback_def build_dependency_graph_def init_def empty_graph_def
  add_node_def add_edge_def keys_def edges_def remove_edges_from_def remove_edge_def nodes_def
  scan_node_def getitem_def add_descendants_def descendants_def neighbors_def Let_def

lemmas example_defs = two_grantors_def one_grant_def self_grant_def

lemma two_grantors_u1:
  "simulate_rollback (build_dependency_graph (init two_grantors)) ''u1''
     = Inr (\<lparr>file_system_data = two_grantors,
             graph = [(''A'', []), (''u1'', []), (''B'', []), (''u2'', [''B''])]\<rparr>,
            {''A'', ''B''}, {''A''})"
  by (simp add: example_defs model_defs insert_Diff_if insert_commute)

lemma two_grantors_u1_u2:
  "simulate_rollback
     \<lparr>file_system_data = two_grantors,
      graph = [(''A'', []), (''u1'', []), (''B'', []), (''u2'', [''B''])]\<rparr> ''u2''
     = Inr (\<lparr>file_system_data = two_grantors,
             graph = [(''A'', []), (''u1'', []), (''B'', []), (''u2'', [])]\<rparr>,
            {''B''}, {''A'', ''B''})"
  by (simp add: example_defs model_defs insert_Diff_if insert_commute)

lemma two_grantors_u2:
  "simulate_rollback (build_dependency_graph (init two_grantors)) ''u2''
     = Inr (\<lparr>file_system_data = two_grantors,
             graph = [(''A'', []), (''u1'', [''A'', ''B'']), (''B'', []), (''u2'', [])]\<rparr>,
            {''B''}, {})"
  by (simp add: example_defs model_defs insert_Diff_if insert_commute)

lemma one_grant_nobody:
  "simulate_rollback (build_dependency_graph (init one_grant)) ''nobody''
     = Inr (build_dependency_graph (init one_grant), {}, {})"
  by (simp add: example_defs model_defs Let_def insert_Diff_if)

lemma self_grant_nobody:
  "simulate_rollback (build_dependency_graph (init self_grant)) ''nobody''
     = Inr (build_dependency_graph (init self_grant), {}, {''X''})"
  by (simp add: example_defs model_defs Let_def insert_Diff_if)

lemma one_grant_graph:
  "graph (build_dependency_graph (init one_grant)) = [(''A'', []), (''u1'', [''A''])]"
  by (simp add: one_grant_def model_defs)

lemma two_grantors_graph:
  "graph (build_dependency_graph (init two_grantors))
     = [(''A'', []), (''u1'', [''A'', ''B'']), (''B'', []), (''u2'', [''B''])]"
  by (simp add: two_grantors_def model_defs)

lemma two_grantors_reordered_graph:
  "graph (build_dependency_graph (init two_grantors_reordered))
     = [(''B'', []), (''u2'', [''B'']), (''u1'', [''B'', ''A'']), (''A'', [])]"
  by (simp add: two_grantors_reordered_def model_defs)

lemma duplicate_grant_graph:
  "graph (build_dependency_graph (init duplicate_grant)) = [(''R'', []), (''u1'', [''R''])]"
  by (simp add: duplicate_grant_def model_defs)

lemma same_mapping_reordered: "same_mapping two_grantors two_grantors_reordered"
  by (auto simp: same_mapping_def is_dict_def keys_def two_grantors_def two_grantors_reordered_def)

section \<open>Properties\<close>

text \<open>
  C1. For every permission mapping and every target principal, the indirect impact that
  \<open>simulate_rollback\<close> returns on the graph built from the mapping is the set of the
  mapping's keys minus the accessible resources: the union, over every key \<open>r\<close> and every
  principal \<open>p\<close> of \<open>r\<close>'s permission list in the mapping, of the transitive descendant
  set of \<open>p\<close> in the graph after the revocation (the nodes reached from \<open>p\<close> along one or
  more edges, \<open>p\<close> itself not counted).
\<close>

theorem indirect_impact_formula:
  "\<exists>s' direct.
     simulate_rollback (build_dependency_graph (init m)) t =
       Inr (s', direct,
            set (keys m)
            - (\<Union>r \<in> set (keys m). \<Union>p \<in> set (the (map_of m r)). descendant_set (graph s') p))
     \<and> graph s' = revoke t (graph (build_dependency_graph (init m)))"
  by (simp add: simulate_built)

theorem indirect_impact_formula_witness:
  "\<exists>s' direct.
     simulate_rollback
       (build_dependency_graph (init [(''A'', [''u1'']), (''B'', [''u1'', ''u2''])])) ''u1'' =
       Inr (s', direct,
            set (keys [(''A'', [''u1'']), (''B'', [''u1'', ''u2''])])
            - (\<Union>r \<in> set (keys [(''A'', [''u1'']), (''B'', [''u1'', ''u2''])]).
                 \<Union>p \<in> set (the (map_of [(''A'', [''u1'']), (''B'', [''u1'', ''u2''])] r)).
                   descendant_set (graph s') p))
     \<and> graph s' = revoke ''u1''
           (graph (build_dependency_graph (init [(''A'', [''u1'']), (''B'', [''u1'', ''u2''])])))"
  by (rule indirect_impact_formula)

text \<open>
  C2. For the mapping \<open>{"R1": ["groupA"], "groupA": ["u1"]}\<close> and the rollback target
  \<open>"u1"\<close> the simulation returns the direct impact \<open>{"groupA"}\<close> and the indirect impact
  \<open>{"groupA"}\<close>; \<open>"R1"\<close> is in neither set, and the edge from \<open>groupA\<close> to \<open>R1\<close> is still
  in the graph after the revocation.
\<close>

theorem transitive_chain_example:
  "simulate_rollback
     (build_dependency_graph (init [(''R1'', [''groupA'']), (''groupA'', [''u1''])])) ''u1''
   = Inr (\<lparr>file_system_data = [(''R1'', [''groupA'']), (''groupA'', [''u1''])],
           graph = [(''R1'', []), (''groupA'', [''R1'']), (''u1'', [])]\<rparr>,
          {''groupA''}, {''groupA''})
   \<and> ''R1'' \<notin> {''groupA''}
   \<and> (''groupA'', ''R1'') \<in> set (edges [(''R1'', []), (''groupA'', [''R1'']), (''u1'', [])])"
  by (simp add: model_defs)

text \<open>
  C3. For every graph and every target principal, the direct impact returned by
  \<open>simulate_rollback\<close> is the set of resources \<open>r\<close> with an edge from the target to \<open>r\<close>
  in the graph as it was before the call; when the target has no outgoing edge, or is
  not a node at all, the call still returns and the direct impact is empty.
\<close>

theorem direct_impact_edges:
  "(\<exists>s' indirect.
      simulate_rollback s t = Inr (s', {r. (t, r) \<in> set (edges (graph s))}, indirect))
   \<and> (t \<notin> set (nodes (graph s)) \<or> (\<forall>r. (t, r) \<notin> set (edges (graph s)))
        \<longrightarrow> (\<exists>s' indirect. simulate_rollback s t = Inr (s', {}, indirect)))"
proof -
  obtain a where a: "simulate_rollback s t =
     Inr (s\<lparr>graph := revoke t (graph s)\<rparr>, {v. (t, v) \<in> set (edges (graph s))},
          set (keys (file_system_data s)) - a)"
    using simulate_rollback_returns by blast
  have "{v. (t, v) \<in> set (edges (graph s))} = {}"
    if "t \<notin> set (nodes (graph s)) \<or> (\<forall>r. (t, r) \<notin> set (edges (graph s)))"
    using that by (auto dest: edges_source_is_node)
  with a show ?thesis by auto
qed

theorem direct_impact_edges_witness:
  "''nobody'' \<notin> set (nodes (graph (build_dependency_graph (init [(''A'', [''u1''])]))))
   \<and> (\<exists>s' indirect.
        simulate_rollback (build_dependency_graph (init [(''A'', [''u1''])])) ''nobody''
          = Inr (s', {}, indirect))
   \<and> (\<exists>s' indirect.
        simulate_rollback (build_dependency_graph (init [(''A'', [''u1''])])) ''u1''
          = Inr (s', {''A''}, indirect))"
proof -
  let ?s = "build_dependency_graph (init [(''A'', [''u1''])])"
  have g: "graph ?s = [(''A'', []), (''u1'', [''A''])]"
    by (simp add: model_defs)
  have n: "''nobody'' \<notin> set (nodes (graph ?s))"
    by (simp add: g nodes_def keys_def)
  have e: "{r. (''u1'', r) \<in> set (edges (graph ?s))} = {''A''}"
    by (auto simp: g edges_def)
  from direct_impact_edges [of ?s "''nobody''"] direct_impact_edges [of ?s "''u1''"] n e
  show ?thesis by simp
qed

text \<open>
  C4. \<open>simulate_rollback\<close> is total: for every simulator state and every target string it
  returns a pair of sets and raises nothing. In particular the reachability query for
  a principal that is not a node of the graph raises \<open>NetworkXError\<close> inside
  \<open>nx.descendants\<close>, which the simulator catches: the principal contributes nothing to
  the accessible resources.
\<close>

theorem simulate_rollback_total:
  "(\<exists>s' direct indirect. simulate_rollback s t = Inr (s', direct, indirect))
   \<and> (p \<notin> set (nodes g)
        \<longrightarrow> descendants g p = Inl (NetworkXError p) \<and> add_descendants g p acc = Inr acc)"
  using simulate_rollback_returns [of s t]
  by (auto simp: add_descendants_absent descendants_def)

theorem simulate_rollback_total_witness:
  "(\<exists>s' direct indirect.
      simulate_rollback (build_dependency_graph (init [(''A'', [''u1''])])) ''nobody''
        = Inr (s', direct, indirect))
   \<and> ''nobody'' \<notin> set (nodes [(''A'', []), (''u1'', [''A''])])
   \<and> descendants [(''A'', []), (''u1'', [''A''])] ''nobody'' = Inl (NetworkXError ''nobody'')
   \<and> add_descendants [(''A'', []), (''u1'', [''A''])] ''nobody'' {''A''} = Inr {''A''}"
proof -
  have n: "''nobody'' \<notin> set (nodes [(''A'', []), (''u1'', [''A''])])"
    by (simp add: nodes_def keys_def)
  from simulate_rollback_total
         [of "build_dependency_graph (init [(''A'', [''u1''])])" "''nobody''"
             "''nobody''" "[(''A'', []), (''u1'', [''A''])]" "{''A''}"] n
  show ?thesis by simp
qed

text \<open>
  C5. Two calls of \<open>simulate_rollback\<close> on the same simulator (its graph satisfying the
  invariant of a \<open>DiGraph\<close>), for the targets \<open>t1\<close> and then \<open>t2\<close>: the second call works
  on the graph the first one left behind. Its direct
  impact is read from the edges that survived the first revocation, its indirect impact
  from the descendant sets in the graph with the outgoing edges of both targets removed,
  and the edge set after both calls is the original edge set minus the outgoing edges of
  both targets.
\<close>

theorem second_call_compounds:
  assumes "wf_graph (graph s)"
  shows "\<exists>s1 d1 i1 s2.
     simulate_rollback s t1 = Inr (s1, d1, i1)
   \<and> simulate_rollback s1 t2 =
       Inr (s2, {r. (t2, r) \<in> set (edges (graph s)) \<and> t2 \<noteq> t1},
            set (keys (file_system_data s))
            - (\<Union>r \<in> set (nodes (graph s)) \<inter> set (keys (file_system_data s)).
                 \<Union>p \<in> set (the (map_of (file_system_data s) r)). descendant_set (graph s2) p))
   \<and> set (edges (graph s1)) = {(u, v). (u, v) \<in> set (edges (graph s)) \<and> u \<noteq> t1}
   \<and> set (edges (graph s2)) = {(u, v). (u, v) \<in> set (edges (graph s)) \<and> u \<noteq> t1 \<and> u \<noteq> t2}"
proof -
  let ?s1 = "s\<lparr>graph := revoke t1 (graph s)\<rparr>"
  let ?s2 = "?s1\<lparr>graph := revoke t2 (graph ?s1)\<rparr>"
  have wf1: "wf_graph (graph ?s1)"
    using assms by (simp add: wf_revoke)
  have e1: "set (edges (graph ?s1)) = {(u, v). (u, v) \<in> set (edges (graph s)) \<and> u \<noteq> t1}"
    using assms by (simp add: edges_revoke)
  have e2: "set (edges (graph ?s2))
            = {(u, v). (u, v) \<in> set (edges (graph s)) \<and> u \<noteq> t1 \<and> u \<noteq> t2}"
    using wf1 e1 by (auto simp: edges_revoke)
  have d2: "{v. (t2, v) \<in> set (edges (graph ?s1))}
            = {r. (t2, r) \<in> set (edges (graph s)) \<and> t2 \<noteq> t1}"
    using e1 by auto
  have first: "simulate_rollback s t1 =
     Inr (?s1, {v. (t1, v) \<in> set (edges (graph s))},
          set (keys (file_system_data s))
          - (\<Union>r \<in> set (nodes (graph s)) \<inter> set (keys (file_system_data s)).
               rescued_by (file_system_data s) (revoke t1 (graph s)) r))"
    using assms by (rule simulate_rollback_correct)
  have second: "simulate_rollback ?s1 t2 =
     Inr (?s2, {r. (t2, r) \<in> set (edges (graph s)) \<and> t2 \<noteq> t1},
          set (keys (file_system_data s))
          - (\<Union>r \<in> set (nodes (graph s)) \<inter> set (keys (file_system_data s)).
               \<Union>p \<in> set (the (map_of (file_system_data s) r)). descendant_set (graph ?s2) p))"
    using simulate_rollback_correct [OF wf1, of t2] d2
    by (simp add: nodes_revoke rescued_by_def)
  from first second e1 e2 show ?thesis by blast
qed

theorem second_call_compounds_witness:
  "wf_graph (graph (build_dependency_graph (init two_grantors)))
   \<and> simulate_rollback (build_dependency_graph (init two_grantors)) ''u1''
       = Inr (\<lparr>file_system_data = two_grantors,
               graph = [(''A'', []), (''u1'', []), (''B'', []), (''u2'', [''B''])]\<rparr>,
              {''A'', ''B''}, {''A''})
   \<and> simulate_rollback
       \<lparr>file_system_data = two_grantors,
        graph = [(''A'', []), (''u1'', []), (''B'', []), (''u2'', [''B''])]\<rparr> ''u2''
       = Inr (\<lparr>file_system_data = two_grantors,
               graph = [(''A'', []), (''u1'', []), (''B'', []), (''u2'', [])]\<rparr>,
              {''B''}, {''A'', ''B''})
   \<and> simulate_rollback (build_dependency_graph (init two_grantors)) ''u2''
       = Inr (\<lparr>file_system_data = two_grantors,
               graph = [(''A'', []), (''u1'', [''A'', ''B'']), (''B'', []), (''u2'', [])]\<rparr>,
              {''B''}, {})
   \<and> (\<exists>s1 d1 i1 s2.
        simulate_rollback (build_dependency_graph (init two_grantors)) ''u1'' = Inr (s1, d1, i1)
      \<and> simulate_rollback s1 ''u2'' =
          Inr (s2, {r. (''u2'', r) \<in> set (edges (graph (build_dependency_graph (init two_grantors))))
                       \<and> ''u2'' \<noteq> ''u1''},
               set (keys (file_system_data (build_dependency_graph (init two_grantors))))
               - (\<Union>r \<in> set (nodes (graph (build_dependency_graph (init two_grantors))))
                          \<inter> set (keys (file_system_data (build_dependency_graph (init two_grantors)))).
                    \<Union>p \<in> set (the (map_of (file_system_data (build_dependency_graph (init two_grantors))) r)).
                      descendant_set (graph s2) p))
      \<and> set (edges (graph s1))
          = {(u, v). (u, v) \<in> set (edges (graph (build_dependency_graph (init two_grantors))))
                     \<and> u \<noteq> ''u1''}
      \<and> set (edges (graph s2))
          = {(u, v). (u, v) \<in> set (edges (graph (build_dependency_graph (init two_grantors))))
                     \<and> u \<noteq> ''u1'' \<and> u \<noteq> ''u2''})"
proof (intro conjI)
  show wf: "wf_graph (graph (build_dependency_graph (init two_grantors)))"
    by (rule wf_built)
  show "\<exists>s1 d1 i1 s2.
        simulate_rollback (build_dependency_graph (init two_grantors)) ''u1'' = Inr (s1, d1, i1)
      \<and> simulate_rollback s1 ''u2'' =
          Inr (s2, {r. (''u2'', r) \<in> set (edges (graph (build_dependency_graph (init two_grantors))))
                       \<and> ''u2'' \<noteq> ''u1''},
               set (keys (file_system_data (build_dependency_graph (init two_grantors))))
               - (\<Union>r \<in> set (nodes (graph (build_dependency_graph (init two_grantors))))
                          \<inter> set (keys (file_system_data (build_dependency_graph (init two_grantors)))).
                    \<Union>p \<in> set (the (map_of (file_system_data (build_dependency_graph (init two_grantors))) r)).
                      descendant_set (graph s2) p))
      \<and> set (edges (graph s1))
          = {(u, v). (u, v) \<in> set (edges (graph (build_dependency_graph (init two_grantors))))
                     \<and> u \<noteq> ''u1''}
      \<and> set (edges (graph s2))
          = {(u, v). (u, v) \<in> set (edges (graph (build_dependency_graph (init two_grantors))))
                     \<and> u \<noteq> ''u1'' \<and> u \<noteq> ''u2''}"
    by (rule second_call_compounds [OF wf])
qed (rule two_grantors_u1 two_grantors_u1_u2 two_grantors_u2)+

text \<open>
  C6. The nodes of the graph built from a mapping are exactly the mapping's keys together
  with every principal of a permission list. \<open>simulate_rollback\<close> leaves the nodes as they
  are and removes the outgoing edges of the target, nothing else.
\<close>

theorem node_set_invariant:
  "set (nodes (graph (build_dependency_graph (init m)))) = set (keys m) \<union> \<Union> (set ` snd ` set m)
   \<and> (wf_graph (graph s) \<longrightarrow>
        (\<exists>s' direct indirect.
           simulate_rollback s t = Inr (s', direct, indirect)
         \<and> nodes (graph s') = nodes (graph s)
         \<and> set (edges (graph s')) = {(u, v). (u, v) \<in> set (edges (graph s)) \<and> u \<noteq> t}))"
proof -
  have "\<exists>s' direct indirect.
           simulate_rollback s t = Inr (s', direct, indirect)
         \<and> nodes (graph s') = nodes (graph s)
         \<and> set (edges (graph s')) = {(u, v). (u, v) \<in> set (edges (graph s)) \<and> u \<noteq> t}"
    if "wf_graph (graph s)"
    using simulate_rollback_returns [of s t] that
    by (auto simp: nodes_revoke edges_revoke)
  then show ?thesis
    by (simp add: nodes_built)
qed

theorem node_set_invariant_witness:
  "wf_graph (graph (build_dependency_graph (init two_grantors)))
   \<and> nodes (graph (build_dependency_graph (init two_grantors))) = [''A'', ''u1'', ''B'', ''u2'']
   \<and> set (nodes (graph (build_dependency_graph (init two_grantors))))
       = set (keys two_grantors) \<union> \<Union> (set ` snd ` set two_grantors)
   \<and> (\<exists>s' direct indirect.
         simulate_rollback (build_dependency_graph (init two_grantors)) ''u1''
           = Inr (s', direct, indirect)
       \<and> nodes (graph s') = nodes (graph (build_dependency_graph (init two_grantors)))
       \<and> set (edges (graph s'))
           = {(u, v). (u, v) \<in> set (edges (graph (build_dependency_graph (init two_grantors))))
                      \<and> u \<noteq> ''u1''})"
proof -
  have wf: "wf_graph (graph (build_dependency_graph (init two_grantors)))"
    by (rule wf_built)
  have n: "nodes (graph (build_dependency_graph (init two_grantors))) = [''A'', ''u1'', ''B'', ''u2'']"
    by (simp add: two_grantors_graph nodes_def keys_def)
  note inst = node_set_invariant
    [of two_grantors "build_dependency_graph (init two_grantors)" "''u1''"]
  from inst have a: "set (nodes (graph (build_dependency_graph (init two_grantors))))
       = set (keys two_grantors) \<union> \<Union> (set ` snd ` set two_grantors)"
    by (rule conjunct1)
  from inst [THEN conjunct2] wf
  have b: "\<exists>s' direct indirect.
         simulate_rollback (build_dependency_graph (init two_grantors)) ''u1''
           = Inr (s', direct, indirect)
       \<and> nodes (graph s') = nodes (graph (build_dependency_graph (init two_grantors)))
       \<and> set (edges (graph s'))
           = {(u, v). (u, v) \<in> set (edges (graph (build_dependency_graph (init two_grantors))))
                      \<and> u \<noteq> ''u1''}"
    by (rule mp)
  from wf n a b show ?thesis
    by (intro conjI)
qed

text \<open>
  C7. In the graph built from a mapping there is an edge from \<open>p\<close> to \<open>r\<close> exactly when
  the permission list of \<open>r\<close> contains \<open>p\<close>, and no ordered pair occurs twice among the
  edges: the mapping \<open>{"R": ["u1", "u1"]}\<close> yields the single edge from \<open>u1\<close> to \<open>R\<close>.
\<close>

theorem edge_iff_granted:
  assumes "is_dict m"
  shows "((p, r) \<in> set (edges (graph (build_dependency_graph (init m))))
            \<longleftrightarrow> (\<exists>ps. map_of m r = Some ps \<and> p \<in> set ps))
         \<and> distinct (edges (graph (build_dependency_graph (init m))))
         \<and> edges (graph (build_dependency_graph (init [(''R'', [''u1'', ''u1''])])))
             = [(''u1'', ''R'')]"
proof -
  have "edges (graph (build_dependency_graph (init [(''R'', [''u1'', ''u1''])])))
          = [(''u1'', ''R'')]"
    by (simp add: model_defs)
  with assms show ?thesis
    by (simp add: edges_built_dict distinct_edges wf_built)
qed

theorem edge_iff_granted_witness:
  "is_dict duplicate_grant
   \<and> (((''u1'', ''R'') \<in> set (edges (graph (build_dependency_graph (init duplicate_grant)))))
        = (\<exists>ps. map_of duplicate_grant ''R'' = Some ps \<and> ''u1'' \<in> set ps))
   \<and> distinct (edges (graph (build_dependency_graph (init duplicate_grant))))
   \<and> edges (graph (build_dependency_graph (init [(''R'', [''u1'', ''u1''])]))) = [(''u1'', ''R'')]
   \<and> (''u1'', ''R'') \<in> set (edges (graph (build_dependency_graph (init duplicate_grant))))"
proof -
  have d: "is_dict duplicate_grant"
    by (simp add: is_dict_def duplicate_grant_def)
  have e: "(''u1'', ''R'') \<in> set (edges (graph (build_dependency_graph (init duplicate_grant))))"
    by (simp add: duplicate_grant_graph edges_def)
  note inst = edge_iff_granted [OF d, of "''u1''" "''R''"]
  from d inst e show ?thesis
    by (intro conjI) (erule conjunct1 conjunct2 [THEN conjunct1] conjunct2 [THEN conjunct2] | assumption)+
qed

text \<open>
  C8. When the target has no outgoing edge (it may not even be a node), the direct
  impact is empty and the revocation changes nothing: the graph, and so its edge set,
  is the one before the call.
\<close>

theorem noop_target:
  assumes "t \<notin> set (nodes (graph s)) \<or> (\<forall>r. (t, r) \<notin> set (edges (graph s)))"
  shows "\<exists>s' indirect.
           simulate_rollback s t = Inr (s', {}, indirect)
         \<and> graph s' = graph s \<and> set (edges (graph s')) = set (edges (graph s))"
proof -
  from assms have none: "\<And>v. (t, v) \<notin> set (edges (graph s))"
    by (auto dest: edges_source_is_node)
  then have "revoke t (graph s) = graph s"
    by (rule revoke_noop)
  moreover from none have "{v. (t, v) \<in> set (edges (graph s))} = {}"
    by simp
  ultimately show ?thesis
    using simulate_rollback_returns [of s t] by auto
qed

theorem noop_target_witness:
  "''nobody'' \<notin> set (nodes (graph (build_dependency_graph (init one_grant))))
   \<and> simulate_rollback (build_dependency_graph (init one_grant)) ''nobody''
       = Inr (build_dependency_graph (init one_grant), {}, {})
   \<and> (\<exists>s' indirect.
         simulate_rollback (build_dependency_graph (init one_grant)) ''nobody''
           = Inr (s', {}, indirect)
       \<and> graph s' = graph (build_dependency_graph (init one_grant))
       \<and> set (edges (graph s')) = set (edges (graph (build_dependency_graph (init one_grant)))))"
proof (intro conjI)
  show n: "''nobody'' \<notin> set (nodes (graph (build_dependency_graph (init one_grant))))"
    by (simp add: one_grant_graph nodes_def keys_def)
  then have h: "''nobody'' \<notin> set (nodes (graph (build_dependency_graph (init one_grant))))
      \<or> (\<forall>r. (''nobody'', r) \<notin> set (edges (graph (build_dependency_graph (init one_grant)))))"
    by (rule disjI1)
  show "\<exists>s' indirect.
         simulate_rollback (build_dependency_graph (init one_grant)) ''nobody''
           = Inr (s', {}, indirect)
       \<and> graph s' = graph (build_dependency_graph (init one_grant))
       \<and> set (edges (graph s')) = set (edges (graph (build_dependency_graph (init one_grant))))"
    by (rule noop_target [OF h])
qed (rule one_grant_nobody)

text \<open>
  C9. Building is a function of the mapping, and the order of the keys and of the
  principals within each list does not matter: two mappings that agree up to these
  orders yield graphs with the same node set and the same edge set.
\<close>

theorem build_order_insensitive:
  assumes "same_mapping m m'"
  shows "set (nodes (graph (build_dependency_graph (init m))))
           = set (nodes (graph (build_dependency_graph (init m'))))
         \<and> set (edges (graph (build_dependency_graph (init m))))
           = set (edges (graph (build_dependency_graph (init m'))))"
proof -
  from assms have sym: "same_mapping m' m"
    by (rule same_mapping_sym)
  from assms have "set (keys m) = set (keys m')"
    by (simp add: same_mapping_def)
  moreover have "\<Union> (set ` snd ` set m) = \<Union> (set ` snd ` set m')"
    using same_mapping_values [OF assms] same_mapping_values [OF sym] by blast
  moreover have "{(p, r). \<exists>ps. (r, ps) \<in> set m \<and> p \<in> set ps}
                 = {(p, r). \<exists>ps. (r, ps) \<in> set m' \<and> p \<in> set ps}"
    using same_mapping_entries [OF assms] same_mapping_entries [OF sym] by blast
  ultimately show ?thesis
    by (simp add: nodes_built edges_built)
qed

theorem build_order_insensitive_witness:
  "same_mapping two_grantors two_grantors_reordered
   \<and> graph (build_dependency_graph (init two_grantors))
       = [(''A'', []), (''u1'', [''A'', ''B'']), (''B'', []), (''u2'', [''B''])]
   \<and> graph (build_dependency_graph (init two_grantors_reordered))
       = [(''B'', []), (''u2'', [''B'']), (''u1'', [''B'', ''A'']), (''A'', [])]
   \<and> set (nodes (graph (build_dependency_graph (init two_grantors))))
       = set (nodes (graph (build_dependency_graph (init two_grantors_reordered))))
   \<and> set (edges (graph (build_dependency_graph (init two_grantors))))
       = set (edges (graph (build_dependency_graph (init two_grantors_reordered))))"
proof -
  note inst = build_order_insensitive [OF same_mapping_reordered]
  show ?thesis
    by (intro conjI same_mapping_reordered two_grantors_graph two_grantors_reordered_graph
          inst [THEN conjunct1] inst [THEN conjunct2])
qed

text \<open>
  C10. A resource whose permission list contains only the resource itself is indirectly
  impacted for every target principal: a node is not among its own descendants, and no
  other node has an edge to it.
\<close>

theorem self_granted_resource_orphaned:
  assumes "is_dict m" and "map_of m x = Some ps" and "set ps = {x}"
  shows "\<exists>s' direct indirect.
           simulate_rollback (build_dependency_graph (init m)) t = Inr (s', direct, indirect)
         \<and> x \<in> indirect"
proof -
  let ?g = "graph (build_dependency_graph (init m))"
  have into_x: "q = x" if "(q, x) \<in> set (edges (revoke t ?g))" for q
  proof -
    from that have "(q, x) \<in> set (edges ?g)"
      by (simp add: edges_revoke [OF wf_built])
    then obtain ps' where "map_of m x = Some ps'" "q \<in> set ps'"
      using edges_built_dict [OF assms(1)] by blast
    with assms(2,3) show ?thesis by simp
  qed
  have "x \<notin> descendant_set (revoke t ?g) p" for p
  proof
    assume "x \<in> descendant_set (revoke t ?g) p"
    then have "(p, x) \<in> (set (edges (revoke t ?g)))\<^sup>+" and "x \<noteq> p"
      by (simp_all add: descendant_set_def)
    from only_self_reaches [OF into_x this(1) refl] this(2) show False
      by simp
  qed
  moreover from assms(2) have "x \<in> set (keys m)"
    by (auto simp: keys_def dest: map_of_SomeD intro: rev_image_eqI)
  ultimately show ?thesis
    by (simp add: simulate_built)
qed

theorem self_granted_resource_orphaned_witness:
  "is_dict self_grant
   \<and> map_of self_grant ''X'' = Some [''X'']
   \<and> set [''X''] = {''X''}
   \<and> simulate_rollback (build_dependency_graph (init self_grant)) ''nobody''
       = Inr (build_dependency_graph (init self_grant), {}, {''X''})
   \<and> (\<exists>s' direct indirect.
         simulate_rollback (build_dependency_graph (init self_grant)) ''nobody''
           = Inr (s', direct, indirect)
       \<and> ''X'' \<in> indirect)"
proof -
  have d: "is_dict self_grant"
    by (simp add: is_dict_def self_grant_def)
  have l: "map_of self_grant ''X'' = Some [''X'']"
    by (simp add: self_grant_def)
  have v: "set [''X''] = {''X''}"
    by simp
  show ?thesis
    by (intro conjI d l v self_grant_nobody
          self_granted_resource_orphaned [OF d l v, of "''nobody''"])
qed

end
